theory Spec2Isabelle
  imports Main
begin

section \<open>Exceptions of the source as values\<close>

text \<open>
  Python integers are unbounded, so every number is an \<^typ>\<open>int\<close>. On a nonzero divisor
  Python's \<^verbatim>\<open>//\<close> and \<^verbatim>\<open>%\<close> are floor division and its remainder, which is what
  \<^term>\<open>(div)\<close> and \<^term>\<open>(mod)\<close> are on \<^typ>\<open>int\<close>; on a zero divisor Python raises
  \<^verbatim>\<open>ZeroDivisionError\<close>, and reading a local variable that was never assigned raises
  \<^verbatim>\<open>UnboundLocalError\<close>, a subclass of \<^verbatim>\<open>NameError\<close>.
\<close>

datatype error = ZeroDivisionError | NameError

section \<open>\<^verbatim>\<open>gcdex\<close>: the extended Euclidean algorithm\<close>

text \<open>The loop state is the tuple \<^verbatim>\<open>(a, b, r, s, x, y)\<close> of the source.\<close>

type_synonym gcdex_state = "int \<times> int \<times> int \<times> int \<times> int \<times> int"

fun gcdex_step :: "gcdex_state \<Rightarrow> gcdex_state" where
  "gcdex_step (a, b, r, s, x, y) =
     (let c = a mod b; q = a div b in (b, c, x - q * r, y - q * s, r, s))"

function gcdex_loop :: "gcdex_state \<Rightarrow> int \<times> int \<times> int" where
  "gcdex_loop (a, b, r, s, x, y) =
     (if b \<noteq> 0 then gcdex_loop (gcdex_step (a, b, r, s, x, y)) else (x, y, a))"
  by pat_completeness auto
termination
  by (relation "measure (\<lambda>(a, b, r, s, x, y). nat \<bar>b\<bar>)") (auto simp: Let_def abs_mod_less)

definition gcdex :: "int \<Rightarrow> int \<Rightarrow> int \<times> int \<times> int" where
  "gcdex a b =
     (if a = 0 \<and> b = 0 then (0, 1, 0)
      else if a = 0 then (0, b div \<bar>b\<bar>, \<bar>b\<bar>)
      else if b = 0 then (a div \<bar>a\<bar>, 0, \<bar>a\<bar>)
      else
        let (a', x_sign) = (if a < 0 then (- a, - 1) else (a, 1));
            (b', y_sign) = (if b < 0 then (- b, - 1) else (b, 1));
            (x, y, g) = gcdex_loop (a', b', 0, 1, 1, 0)
        in (x * x_sign, y * y_sign, g))"

text \<open>
  The same loop with an explicit bound on the number of iterations: \<^term>\<open>None\<close> means
  that the bound was reached with \<^verbatim>\<open>b\<close> still nonzero.
\<close>

fun gcdex_iter :: "nat \<Rightarrow> gcdex_state \<Rightarrow> (int \<times> int \<times> int) option" where
  "gcdex_iter n (a, b, r, s, x, y) =
     (if b \<noteq> 0
      then (case n of 0 \<Rightarrow> None | Suc k \<Rightarrow> gcdex_iter k (gcdex_step (a, b, r, s, x, y)))
      else Some (x, y, a))"

section \<open>\<^verbatim>\<open>prod\<close> and \<^verbatim>\<open>_crt\<close>: the direct Chinese remainder construction\<close>

definition prod_seq :: "int list \<Rightarrow> int" where
  "prod_seq seq = foldl (*) 1 seq"

text \<open>The \<^verbatim>\<open>for u, m in zip(U, M)\<close> loop of \<^verbatim>\<open>_crt\<close>, with the accumulator \<^verbatim>\<open>v\<close>.\<close>

fun crt_loop :: "int \<Rightarrow> int \<Rightarrow> (int \<times> int) list \<Rightarrow> error + int" where
  "crt_loop p v [] = Inr v"
| "crt_loop p v ((u, m) # rest) =
     (if m = 0 then Inl ZeroDivisionError
      else
        let e = p div m;
            (s, _, _) = gcdex e m
        in crt_loop p (v + e * (u * s mod m)) rest)"

text \<open>What one iteration of that loop adds to \<^verbatim>\<open>v\<close>, for the pair \<^verbatim>\<open>(u, m)\<close>.\<close>

definition crt_term :: "int \<Rightarrow> int \<times> int \<Rightarrow> int" where
  "crt_term p um =
     (case um of (u, m) \<Rightarrow>
        let e = p div m;
            (s, _, _) = gcdex e m
        in e * (u * s mod m))"

text \<open>The source's \<^verbatim>\<open>_crt(U, M)\<close> (an Isabelle name cannot start with an underscore).\<close>

definition underscore_crt :: "int list \<Rightarrow> int list \<Rightarrow> error + int" where
  "underscore_crt U M =
     (let p = prod_seq M in
      case crt_loop p 0 (zip U M) of
        Inl e \<Rightarrow> Inl e
      | Inr v \<Rightarrow> if p = 0 then Inl ZeroDivisionError else Inr (v mod p))"

section \<open>\<^verbatim>\<open>solve_congruence\<close>: successive substitution\<close>

text \<open>
  \<^verbatim>\<open>combine\<close> returns a pair, or \<^verbatim>\<open>None\<close> when the two congruences are incompatible.
  \<^verbatim>\<open>reduce(gcd, [a, b, c])\<close> is \<^verbatim>\<open>gcd(gcd(a, b), c)\<close>, and \<^verbatim>\<open>math.gcd\<close> is nonnegative.
\<close>

definition combine :: "int \<times> int \<Rightarrow> int \<times> int \<Rightarrow> error + (int \<times> int) option" where
  "combine c1 c2 =
     (case c1 of (a1, m1) \<Rightarrow> case c2 of (a2, m2) \<Rightarrow>
        let a = m1; b = a2 - a1; c = m2;
            g = gcd (gcd a b) c
        in if g = 0 then Inl ZeroDivisionError
           else
             let a = a div g; b = b div g; c = c div g
             in if a \<noteq> 1
                then (case gcdex a c of (inv_a, _, g') \<Rightarrow>
                        if g' \<noteq> 1 then Inr None
                        else Inr (Some (a1 + m1 * (b * inv_a), m1 * c)))
                else Inr (Some (a1 + m1 * b, m1 * c)))"

text \<open>
  The \<^verbatim>\<open>check\<close> pass. The dictionary \<^verbatim>\<open>uniq\<close> maps a modulus to its reduced residue and
  keeps insertion order, so it is an association list of \<^verbatim>\<open>(m, r)\<close> entries to which a new
  key is appended. The result is \<^term>\<open>None\<close> where the source returns \<^verbatim>\<open>None\<close> from
  inside the loop.
\<close>

fun dedup_loop :: "(int \<times> int) list \<Rightarrow> (int \<times> int) list \<Rightarrow> error + (int \<times> int) list option" where
  "dedup_loop uniq [] = Inr (Some uniq)"
| "dedup_loop uniq ((r, m) # rest) =
     (if m = 0 then Inl ZeroDivisionError
      else
        let r' = r mod m in
        case map_of uniq m of
          Some r0 \<Rightarrow> if r' \<noteq> r0 then Inr None else dedup_loop uniq rest
        | None \<Rightarrow> dedup_loop (uniq @ [(m, r')]) rest)"

definition dedup :: "(int \<times> int) list \<Rightarrow> error + (int \<times> int) list option" where
  "dedup rm =
     (case dedup_loop [] rm of
        Inl e \<Rightarrow> Inl e
      | Inr None \<Rightarrow> Inr None
      | Inr (Some uniq) \<Rightarrow> Inr (Some (map (\<lambda>(m, r). (r, m)) uniq)))"

text \<open>
  The \<^verbatim>\<open>for rmi in rm\<close> loop. Its state is \<^verbatim>\<open>rv\<close> and the locals \<^verbatim>\<open>n, m\<close>, which are
  unbound (\<^term>\<open>None\<close>) until the first iteration has assigned them. Note that \<^verbatim>\<open>rv\<close> keeps
  the unreduced pair: only the local \<^verbatim>\<open>n\<close> is reduced. The loop ends by \<^verbatim>\<open>break\<close> or by
  exhausting \<^verbatim>\<open>rm\<close>, which is when the \<^verbatim>\<open>else\<close> branch runs.
\<close>

datatype loop_exit = Break | Exhausted "(int \<times> int) option"

fun solve_loop :: "int \<times> int \<Rightarrow> (int \<times> int) option \<Rightarrow> (int \<times> int) list \<Rightarrow> error + loop_exit" where
  "solve_loop rv nm [] = Inr (Exhausted nm)"
| "solve_loop rv nm (rmi # rest) =
     (case combine rv rmi of
        Inl e \<Rightarrow> Inl e
      | Inr None \<Rightarrow> Inr Break
      | Inr (Some (n, m)) \<Rightarrow>
          if m = 0 then Inl ZeroDivisionError
          else solve_loop (n, m) (Some (n mod m, m)) rest)"

text \<open>
  The locals \<^verbatim>\<open>(n, m)\<close> at the \<^verbatim>\<open>return n\<close> of the \<^verbatim>\<open>else\<close> branch, \<^term>\<open>None\<close> when the
  function returns \<^verbatim>\<open>None\<close> (from the check pass, or by falling off its end after \<^verbatim>\<open>break\<close>).
\<close>

definition solve_locals :: "bool \<Rightarrow> (int \<times> int) list \<Rightarrow> error + (int \<times> int) option" where
  "solve_locals check rm =
     (case (if check then dedup rm else Inr (Some rm)) of
        Inl e \<Rightarrow> Inl e
      | Inr None \<Rightarrow> Inr None
      | Inr (Some rm') \<Rightarrow>
          (case solve_loop (0, 1) None rm' of
             Inl e \<Rightarrow> Inl e
           | Inr Break \<Rightarrow> Inr None
           | Inr (Exhausted None) \<Rightarrow> Inl NameError
           | Inr (Exhausted (Some nm)) \<Rightarrow> Inr (Some nm)))"

text \<open>\<^verbatim>\<open>solve_congruence(*rm, check=check)\<close>: the \<^verbatim>\<open>else\<close> branch returns \<^verbatim>\<open>n\<close> alone.\<close>

definition solve_congruence :: "bool \<Rightarrow> (int \<times> int) list \<Rightarrow> error + int option" where
  "solve_congruence check rm =
     (case solve_locals check rm of
        Inl e \<Rightarrow> Inl e
      | Inr None \<Rightarrow> Inr None
      | Inr (Some (n, m)) \<Rightarrow> Inr (Some n))"

section \<open>\<^verbatim>\<open>crt\<close>: the direct construction, verified, with the general solver as fallback\<close>

text \<open>
  The generator \<^verbatim>\<open>all(v % m == result % m for v, m in zip(v, m))\<close>: it stops at the first
  pair that disagrees.
\<close>

fun residues_agree :: "int \<Rightarrow> (int \<times> int) list \<Rightarrow> error + bool" where
  "residues_agree result [] = Inr True"
| "residues_agree result ((v, m) # rest) =
     (if m = 0 then Inl ZeroDivisionError
      else if v mod m = result mod m then residues_agree result rest
      else Inr False)"

text \<open>\<^verbatim>\<open>crt(m, v, check)\<close>: moduli first. It returns \<^verbatim>\<open>result\<close>, an integer or \<^verbatim>\<open>None\<close>.\<close>

definition crt :: "int list \<Rightarrow> int list \<Rightarrow> bool \<Rightarrow> error + int option" where
  "crt m v check =
     (case underscore_crt v m of
        Inl e \<Rightarrow> Inl e
      | Inr result \<Rightarrow>
          if check
          then (case residues_agree result (zip v m) of
                  Inl e \<Rightarrow> Inl e
                | Inr True \<Rightarrow> Inr (Some result)
                | Inr False \<Rightarrow> solve_congruence False (zip v m))
          else Inr (Some result))"

section \<open>What it means to solve a system\<close>

text \<open>
  An integer \<open>x\<close> satisfies the system \<open>rm\<close> of (residue, modulus) pairs when
  \<^verbatim>\<open>x % m == a % m\<close> for every pair \<open>(a, m)\<close>. This is the mathematical reading of the
  input, against which the solver is compared.
\<close>

definition satisfies :: "int \<Rightarrow> (int \<times> int) list \<Rightarrow> bool" where
  "satisfies x rm = (\<forall>(a, m) \<in> set rm. x mod m = a mod m)"

section \<open>Properties of \<^verbatim>\<open>gcdex\<close>\<close>

text \<open>
  The loop keeps \<open>x * A + y * B = a\<close> and \<open>r * A + s * B = b\<close> for the operands \<open>A\<close>,
  \<open>B\<close> it was started on, and it keeps the greatest common divisor of \<open>a\<close> and \<open>b\<close>.
\<close>

lemma gcdex_loop_bezout:
  "gcdex_loop st = (x', y', g) \<Longrightarrow>
   (case st of (a, b, r, s, x, y) \<Rightarrow> x * A + y * B = a \<and> r * A + s * B = b) \<Longrightarrow>
   x' * A + y' * B = g"
proof (induction st rule: gcdex_loop.induct)
  case (1 a b r s x y)
  show ?case
  proof (cases "b = 0")
    case True
    with "1.prems" show ?thesis by simp
  next
    case False
    have inv: "x * A + y * B = a" "r * A + s * B = b"
      using "1.prems"(2) by simp_all
    have "(x - a div b * r) * A + (y - a div b * s) * B
            = (x * A + y * B) - a div b * (r * A + s * B)"
      by (simp add: algebra_simps)
    also have "\<dots> = a - a div b * b"
      by (simp only: inv)
    also have "\<dots> = a mod b"
      by (simp add: minus_div_mult_eq_mod)
    finally have step: "(x - a div b * r) * A + (y - a div b * s) * B = a mod b" .
    from False "1.prems"(1) have run: "gcdex_loop (gcdex_step (a, b, r, s, x, y)) = (x', y', g)"
      by simp
    show ?thesis
      by (rule "1.IH" [OF False run]) (simp add: Let_def inv step)
  qed
qed

lemma gcdex_loop_gcd:
  "gcdex_loop st = (x', y', g) \<Longrightarrow>
   (case st of (a, b, r, s, x, y) \<Rightarrow> 0 \<le> a \<and> 0 \<le> b \<and> gcd a b = d) \<Longrightarrow> g = d"
proof (induction st rule: gcdex_loop.induct)
  case (1 a b r s x y)
  show ?case
  proof (cases "b = 0")
    case True
    with "1.prems" show ?thesis by auto
  next
    case False
    from "1.prems"(2) have ab: "0 \<le> a" "0 \<le> b" "gcd a b = d" by simp_all
    with False have "0 < b" by simp
    then have "0 \<le> a mod b" by simp
    moreover have "gcd b (a mod b) = d"
      using ab(3) gcd_red_int [of a b] by simp
    moreover from False "1.prems"(1) have "gcdex_loop (gcdex_step (a, b, r, s, x, y)) = (x', y', g)"
      by simp
    ultimately show ?thesis
      using "1.IH" [OF False] ab by (simp add: Let_def)
  qed
qed

lemma gcdex_iter_enough:
  "(case st of (a, b, r, s, x, y) \<Rightarrow> nat \<bar>b\<bar> \<le> n) \<Longrightarrow> gcdex_iter n st = Some (gcdex_loop st)"
proof (induction n arbitrary: st)
  case 0
  then show ?case by (cases st) auto
next
  case (Suc n)
  obtain a b r s x y where st: "st = (a, b, r, s, x, y)" by (cases st)
  show ?case
  proof (cases "b = 0")
    case True
    with st show ?thesis by simp
  next
    case False
    then have "\<bar>a mod b\<bar> < \<bar>b\<bar>" by (simp add: abs_mod_less)
    with Suc.prems st have "nat \<bar>a mod b\<bar> \<le> n" by simp
    then have "gcdex_iter n (gcdex_step st) = Some (gcdex_loop (gcdex_step st))"
      by (intro Suc.IH) (simp add: st Let_def)
    with False st show ?thesis by simp
  qed
qed

lemma div_abs_sgn: "c \<noteq> 0 \<Longrightarrow> c div \<bar>c\<bar> = sgn c" for c :: int
proof -
  assume nz: "c \<noteq> 0"
  have "c div \<bar>c\<bar> = (sgn c * \<bar>c\<bar>) div \<bar>c\<bar>"
    by (simp add: mult_sgn_abs)
  also have "\<dots> = sgn c"
    using nz by (simp only: nonzero_mult_div_cancel_right abs_eq_0 not_False_eq_True)
  finally show ?thesis .
qed

text \<open>On nonzero operands \<^verbatim>\<open>gcdex\<close> runs the loop on the magnitudes and reapplies the signs.\<close>

lemma gcdex_nonzero:
  assumes "a \<noteq> 0" "b \<noteq> 0" "gcdex_loop (\<bar>a\<bar>, \<bar>b\<bar>, 0, 1, 1, 0) = (x0, y0, g0)"
  shows "gcdex a b = (x0 * sgn a, y0 * sgn b, g0)"
proof -
  have a: "(if a < 0 then (- a, - 1) else (a, 1)) = (\<bar>a\<bar>, sgn a)"
    using assms(1) by (simp add: abs_if sgn_if)
  have b: "(if b < 0 then (- b, - 1) else (b, 1)) = (\<bar>b\<bar>, sgn b)"
    using assms(2) by (simp add: abs_if sgn_if)
  show ?thesis
    unfolding gcdex_def a b using assms by simp
qed

lemma gcdex_bezout_all:
  "gcdex a b = (x, y, g) \<Longrightarrow> x * a + y * b = g \<and> g = gcd \<bar>a\<bar> \<bar>b\<bar> \<and> 0 \<le> g"
proof -
  assume run: "gcdex a b = (x, y, g)"
  consider "a = 0" "b = 0" | "a = 0" "b \<noteq> 0" | "a \<noteq> 0" "b = 0" | "a \<noteq> 0" "b \<noteq> 0"
    by blast
  then show ?thesis
  proof cases
    case 1
    with run show ?thesis by (simp add: gcdex_def)
  next
    case 2
    have "sgn b * b = \<bar>b\<bar>" by (simp add: sgn_if abs_if)
    with run 2 show ?thesis by (auto simp: gcdex_def div_abs_sgn)
  next
    case 3
    have "sgn a * a = \<bar>a\<bar>" by (simp add: sgn_if abs_if)
    with run 3 show ?thesis by (auto simp: gcdex_def div_abs_sgn)
  next
    case 4
    obtain x0 y0 g0 where loop: "gcdex_loop (\<bar>a\<bar>, \<bar>b\<bar>, 0, 1, 1, 0) = (x0, y0, g0)"
      by (cases "gcdex_loop (\<bar>a\<bar>, \<bar>b\<bar>, 0, 1, 1, 0)")
    have res: "x = x0 * sgn a" "y = y0 * sgn b" "g = g0"
      using run gcdex_nonzero [OF 4 loop] by simp_all
    have "x0 * \<bar>a\<bar> + y0 * \<bar>b\<bar> = g0"
      by (rule gcdex_loop_bezout [OF loop]) simp
    moreover have "g0 = gcd \<bar>a\<bar> \<bar>b\<bar>"
      by (rule gcdex_loop_gcd [OF loop]) simp
    moreover have "x * a = x0 * \<bar>a\<bar>" "y * b = y0 * \<bar>b\<bar>"
      unfolding res by (simp_all add: sgn_if abs_if)
    ultimately show ?thesis using res(3) by simp
  qed
qed

text \<open>
  C3. For all integers \<open>a\<close> and \<open>b\<close>, zero and negative values included, the triple
  \<open>(x, y, g)\<close> returned by \<^verbatim>\<open>gcdex(a, b)\<close> satisfies \<open>x * a + y * b = g\<close>,
  \<open>g = gcd \<bar>a\<bar> \<bar>b\<bar>\<close> and \<open>0 \<le> g\<close>.
\<close>

theorem gcdex_bezout:
  "gcdex a b = (x, y, g) \<Longrightarrow> x * a + y * b = g \<and> g = gcd \<bar>a\<bar> \<bar>b\<bar> \<and> 0 \<le> g"
  by (rule gcdex_bezout_all)

theorem gcdex_bezout_witness:
  "gcdex (- 10) 12 = (1, 1, 2) \<and> 1 * (- 10) + 1 * 12 = (2::int)
   \<and> (2::int) = gcd \<bar>- 10\<bar> \<bar>12\<bar> \<and> (0::int) \<le> 2"
proof -
  have run: "gcdex (- 10) 12 = (1, 1, 2)"
    by (simp add: gcdex_def Let_def)
  from gcdex_bezout [OF run] run show ?thesis by simp
qed

text \<open>
  C7. \<^verbatim>\<open>gcdex(0, 0)\<close> is \<open>(0, 1, 0)\<close>; for every \<open>b \<noteq> 0\<close>, \<^verbatim>\<open>gcdex(0, b)\<close> is
  \<open>(0, sgn b, \<bar>b\<bar>)\<close>; and for every \<open>a \<noteq> 0\<close>, \<^verbatim>\<open>gcdex(a, 0)\<close> is \<open>(sgn a, 0, \<bar>a\<bar>)\<close>.
\<close>

theorem gcdex_zero_cases:
  "gcdex 0 0 = (0, 1, 0)
   \<and> (b \<noteq> 0 \<longrightarrow> gcdex 0 b = (0, sgn b, \<bar>b\<bar>))
   \<and> (a \<noteq> 0 \<longrightarrow> gcdex a 0 = (sgn a, 0, \<bar>a\<bar>))"
  by (simp add: gcdex_def div_abs_sgn)

theorem gcdex_zero_cases_witness:
  "gcdex 0 0 = (0, 1, 0) \<and> gcdex 0 (- 7) = (0, - 1, 7) \<and> gcdex 5 0 = (1, 0, 5)"
  using gcdex_zero_cases [of "- 7" 5] by simp

text \<open>
  C9. \<^verbatim>\<open>gcdex\<close> terminates on every pair of integers. An iteration of the loop entered
  with \<open>0 < b\<close> leaves a remainder \<open>b'\<close> with \<open>0 \<le> b' < b\<close>; from any state, \<open>\<bar>b\<bar>\<close>
  iterations are enough for the loop to end, with the result of \<^const>\<open>gcdex_loop\<close>; and
  on nonzero operands \<open>a0\<close>, \<open>b0\<close> the loop that \<^verbatim>\<open>gcdex\<close> starts after the sign
  normalisation ends within \<open>\<bar>b0\<bar>\<close> iterations with the triple that \<^verbatim>\<open>gcdex\<close> returns
  (up to the signs it reapplies).
\<close>

theorem gcdex_terminates:
  "(0 < b \<longrightarrow> (case gcdex_step (a, b, r, s, x, y) of (a', b', rest) \<Rightarrow> 0 \<le> b' \<and> b' < b))
   \<and> gcdex_iter (nat \<bar>b\<bar>) (a, b, r, s, x, y) = Some (gcdex_loop (a, b, r, s, x, y))
   \<and> (a0 \<noteq> 0 \<and> b0 \<noteq> 0 \<longrightarrow>
        (\<exists>x0 y0 g. gcdex_iter (nat \<bar>b0\<bar>) (\<bar>a0\<bar>, \<bar>b0\<bar>, 0, 1, 1, 0) = Some (x0, y0, g)
           \<and> gcdex a0 b0 = (x0 * sgn a0, y0 * sgn b0, g)))"
proof (intro conjI impI)
  assume "0 < b"
  then show "case gcdex_step (a, b, r, s, x, y) of (a', b', rest) \<Rightarrow> 0 \<le> b' \<and> b' < b"
    by (simp add: Let_def)
next
  show "gcdex_iter (nat \<bar>b\<bar>) (a, b, r, s, x, y) = Some (gcdex_loop (a, b, r, s, x, y))"
    by (rule gcdex_iter_enough) simp
next
  assume nz: "a0 \<noteq> 0 \<and> b0 \<noteq> 0"
  obtain x0 y0 g where loop: "gcdex_loop (\<bar>a0\<bar>, \<bar>b0\<bar>, 0, 1, 1, 0) = (x0, y0, g)"
    by (cases "gcdex_loop (\<bar>a0\<bar>, \<bar>b0\<bar>, 0, 1, 1, 0)")
  have "gcdex_iter (nat \<bar>b0\<bar>) (\<bar>a0\<bar>, \<bar>b0\<bar>, 0, 1, 1, 0) = Some (x0, y0, g)"
    unfolding loop [symmetric] by (rule gcdex_iter_enough) simp
  moreover have "gcdex a0 b0 = (x0 * sgn a0, y0 * sgn b0, g)"
    using nz loop by (simp add: gcdex_nonzero)
  ultimately show "\<exists>x0 y0 g. gcdex_iter (nat \<bar>b0\<bar>) (\<bar>a0\<bar>, \<bar>b0\<bar>, 0, 1, 1, 0) = Some (x0, y0, g)
      \<and> gcdex a0 b0 = (x0 * sgn a0, y0 * sgn b0, g)"
    by blast
qed

theorem gcdex_terminates_witness:
  "(0::int) < 12 \<and> gcdex_step (10, 12, 0, 1, 1, 0) = (12, 10, 1, 0, 0, 1) \<and> (10::int) < 12
   \<and> gcdex_iter 12 (10, 12, 0, 1, 1, 0) = Some (- 1, 1, 2)
   \<and> gcdex (- 10) 12 = (1, 1, 2)"
proof -
  have step: "gcdex_step (10, 12, 0, 1, 1, 0) = (12, 10, 1, 0, 0, 1)"
    by (simp add: Let_def)
  have run: "gcdex_loop (10, 12, 0, 1, 1, 0) = (- 1, 1, 2)"
    by (simp add: Let_def)
  from gcdex_terminates [of 12 10 0 1 1 0 "- 10" 12] step run show ?thesis
    by simp
qed

section \<open>Properties of \<^verbatim>\<open>_crt\<close> and \<^verbatim>\<open>crt\<close>\<close>

text \<open>
  With nonzero moduli the loop of \<^verbatim>\<open>_crt\<close> raises nothing and adds one \<^const>\<open>crt_term\<close>
  per pair. A term is divisible by every other modulus, and congruent to its residue
  modulo its own modulus when that is coprime to the product of the others.
\<close>

lemma foldl_mult: "foldl (*) a xs = a * prod_list xs" for a :: int
  by (induction xs arbitrary: a) (simp_all add: mult.assoc)

lemma prod_seq_prod_list: "prod_seq M = prod_list M"
  by (simp add: prod_seq_def foldl_mult)

lemma crt_loop_sum:
  "\<forall>(u, m) \<in> set ps. m \<noteq> 0 \<Longrightarrow> crt_loop p v ps = Inr (v + sum_list (map (crt_term p) ps))"
proof (induction ps arbitrary: v)
  case Nil
  show ?case by simp
next
  case (Cons um ps)
  obtain u m where um: "um = (u, m)" by (cases um)
  from Cons.prems um have nz: "m \<noteq> 0" and rest: "\<forall>(u, m) \<in> set ps. m \<noteq> 0"
    by auto
  show ?case
    using nz Cons.IH [OF rest] um
    by (simp add: crt_term_def Let_def add.assoc split: prod.splits)
qed

lemma crt_loop_Inr_nonzero:
  "crt_loop p v ps = Inr w \<Longrightarrow> \<forall>(u, m) \<in> set ps. m \<noteq> 0"
proof (induction ps arbitrary: v)
  case Nil
  show ?case by simp
next
  case (Cons um ps)
  obtain u m where um: "um = (u, m)" by (cases um)
  from Cons.prems um have nz: "m \<noteq> 0"
    by (auto split: if_splits)
  with Cons.prems um obtain v' where "crt_loop p v' ps = Inr w"
    by (auto simp: Let_def split: prod.splits)
  then have "\<forall>(u, m) \<in> set ps. m \<noteq> 0" by (rule Cons.IH)
  with nz um show ?case by simp
qed

lemma crt_loop_zero:
  "(u, 0) \<in> set ps \<Longrightarrow> crt_loop p v ps = Inl ZeroDivisionError"
proof (induction ps arbitrary: v)
  case Nil
  then show ?case by simp
next
  case (Cons um ps)
  obtain u' m where um: "um = (u', m)" by (cases um)
  show ?case
  proof (cases "m = 0")
    case True
    with um show ?thesis by simp
  next
    case False
    with Cons.prems um have "(u, 0) \<in> set ps" by auto
    then show ?thesis using False um Cons.IH
      by (simp add: Let_def split: prod.splits)
  qed
qed

lemma residues_agree_all:
  "\<forall>(v, m) \<in> set ps. m \<noteq> 0 \<Longrightarrow>
   residues_agree result ps = Inr (\<forall>(v, m) \<in> set ps. v mod m = result mod m)"
  by (induction ps) auto

lemma dvd_sum_list_map:
  "(\<And>x. x \<in> set xs \<Longrightarrow> m dvd f x) \<Longrightarrow> m dvd sum_list (map f xs)" for m :: int
  by (induction xs) simp_all

lemma crt_term_other:
  assumes "m' \<noteq> 0" "m' * m dvd p"
  shows "m dvd crt_term p (u', m')"
proof -
  from assms(2) have "m' dvd p" by (rule dvd_mult_left)
  with assms have "m dvd p div m'"
    by (simp add: dvd_div_iff_mult mult.commute)
  then show ?thesis
    by (simp add: crt_term_def Let_def split: prod.splits)
qed

lemma crt_term_self:
  assumes "coprime (p div m) m"
  shows "crt_term p (u, m) mod m = u mod m"
proof -
  define e where "e = p div m"
  obtain s t g where run: "gcdex e m = (s, t, g)" by (cases "gcdex e m")
  from gcdex_bezout_all [OF run] have bez: "s * e + t * m = g" and g: "g = gcd \<bar>e\<bar> \<bar>m\<bar>"
    by simp_all
  from assms have "g = 1" unfolding g e_def by (simp add: coprime_iff_gcd_eq_1)
  with bez have se: "s * e = 1 - t * m" by simp
  have "crt_term p (u, m) = e * (u * s mod m)"
    using run by (simp add: crt_term_def e_def)
  then have "crt_term p (u, m) mod m = (e * (u * s)) mod m"
    by (simp add: mod_mult_right_eq)
  also have "e * (u * s) = u * (s * e)" by (simp add: mult_ac)
  also have "\<dots> = u + (- (u * t)) * m" unfolding se by (simp add: algebra_simps)
  also have "(u + (- (u * t)) * m) mod m = u mod m" by (rule mod_mult_self1)
  finally show ?thesis .
qed

lemma crt_sum_mod:
  assumes len: "length U = length M" and j: "j < length M"
    and nz: "\<forall>m \<in> set M. m \<noteq> 0"
    and cop: "\<forall>i < length M. \<forall>k < length M. i \<noteq> k \<longrightarrow> coprime (M ! i) (M ! k)"
  shows "sum_list (map (crt_term (prod_list M)) (zip U M)) mod (M ! j) = (U ! j) mod (M ! j)"
proof -
  define m where "m = M ! j"
  define M1 where "M1 = take j M"
  define M2 where "M2 = drop (Suc j) M"
  define U1 where "U1 = take j U"
  define U2 where "U2 = drop (Suc j) U"
  define p where "p = prod_list M"
  have M: "M = M1 @ m # M2"
    unfolding M1_def M2_def m_def using j by (simp add: id_take_nth_drop)
  have U: "U = U1 @ (U ! j) # U2"
    unfolding U1_def U2_def using j len by (simp add: id_take_nth_drop)
  have len1: "length U1 = length M1"
    unfolding U1_def M1_def using len by simp
  have zip: "zip U M = zip U1 M1 @ (U ! j, m) # zip U2 M2"
    by (subst U, subst M) (simp add: len1)
  have p: "p = prod_list M1 * (m * prod_list M2)"
    unfolding p_def by (subst M) simp
  have m_nz: "m \<noteq> 0" using nz j unfolding m_def by simp
  have others: "x \<noteq> 0 \<and> coprime x m \<and> x * m dvd p" if "x \<in> set M1 \<union> set M2" for x
  proof -
    from that have "x \<in> set M" by (subst M) auto
    with nz have x_nz: "x \<noteq> 0" by simp
    from that have "\<exists>i < length M. i \<noteq> j \<and> M ! i = x"
    proof
      assume "x \<in> set M1"
      then obtain i where "i < length M1" "M1 ! i = x"
        by (auto simp: in_set_conv_nth)
      then have "i < length M" "i \<noteq> j" "M ! i = x"
        unfolding M1_def using j by simp_all
      then show ?thesis by blast
    next
      assume "x \<in> set M2"
      then obtain i where "i < length M2" "M2 ! i = x"
        by (auto simp: in_set_conv_nth)
      then have "Suc j + i < length M" "Suc j + i \<noteq> j" "M ! (Suc j + i) = x"
        unfolding M2_def using j by simp_all
      then show ?thesis by blast
    qed
    then obtain i where i: "i < length M" "i \<noteq> j" "M ! i = x" by blast
    with cop j have cp: "coprime x m" unfolding m_def by blast
    from that have "x * m dvd p"
    proof
      assume "x \<in> set M1"
      then have "x dvd prod_list M1" by (rule prod_list_dvd)
      then have "x * m dvd prod_list M1 * m" by (rule mult_dvd_mono) simp
      then show ?thesis unfolding p by (simp add: mult.assoc [symmetric])
    next
      assume "x \<in> set M2"
      then have "x dvd prod_list M2" by (rule prod_list_dvd)
      then have "x * m dvd prod_list M2 * m" by (rule mult_dvd_mono) simp
      then have "x * m dvd prod_list M1 * (prod_list M2 * m)" by (rule dvd_mult)
      then show ?thesis unfolding p by (simp add: mult.commute)
    qed
    with x_nz cp show ?thesis by simp
  qed
  have zero1: "m dvd sum_list (map (crt_term p) (zip U1 M1))"
  proof (rule dvd_sum_list_map)
    fix um assume mem: "um \<in> set (zip U1 M1)"
    obtain u x where um: "um = (u, x)" by (cases um)
    from mem have "x \<in> set M1" unfolding um by (rule set_zip_rightD)
    with others [of x] show "m dvd crt_term p um"
      unfolding um by (simp add: crt_term_other)
  qed
  have zero2: "m dvd sum_list (map (crt_term p) (zip U2 M2))"
  proof (rule dvd_sum_list_map)
    fix um assume mem: "um \<in> set (zip U2 M2)"
    obtain u x where um: "um = (u, x)" by (cases um)
    from mem have "x \<in> set M2" unfolding um by (rule set_zip_rightD)
    with others [of x] show "m dvd crt_term p um"
      unfolding um by (simp add: crt_term_other)
  qed
  have "p div m = prod_list (M1 @ M2)"
    unfolding p using m_nz by simp
  moreover have "coprime (prod_list (M1 @ M2)) m"
    by (rule prod_list_coprime_left) (use others in auto)
  ultimately have self: "crt_term p (U ! j, m) mod m = (U ! j) mod m"
    by (simp add: crt_term_self)
  have "sum_list (map (crt_term p) (zip U M))
        = sum_list (map (crt_term p) (zip U1 M1)) + sum_list (map (crt_term p) (zip U2 M2))
          + crt_term p (U ! j, m)"
    unfolding zip by simp
  also have "\<dots> mod m = crt_term p (U ! j, m) mod m"
    using zero1 zero2 by (simp add: mod_add_left_eq [symmetric] mod_eq_0_iff_dvd dvd_add)
  finally show ?thesis
    using self unfolding p_def m_def by simp
qed

lemma underscore_crt_value:
  assumes "\<forall>m \<in> set M. m \<noteq> 0"
  shows "underscore_crt U M
         = Inr (sum_list (map (crt_term (prod_list M)) (zip U M)) mod prod_list M)"
proof -
  have "\<forall>(u, m) \<in> set (zip U M). m \<noteq> 0"
    using assms by (auto dest: set_zip_rightD)
  then have "crt_loop (prod_list M) 0 (zip U M)
             = Inr (0 + sum_list (map (crt_term (prod_list M)) (zip U M)))"
    by (rule crt_loop_sum)
  moreover have "prod_list M \<noteq> 0"
    using assms by (auto simp: prod_list_zero_iff)
  ultimately show ?thesis
    by (simp add: underscore_crt_def prod_seq_prod_list Let_def)
qed

lemma underscore_crt_cong:
  assumes len: "length U = length M" and j: "j < length M"
    and nz: "\<forall>m \<in> set M. m \<noteq> 0"
    and cop: "\<forall>i < length M. \<forall>k < length M. i \<noteq> k \<longrightarrow> coprime (M ! i) (M ! k)"
    and run: "underscore_crt U M = Inr v"
  shows "v mod (M ! j) = (U ! j) mod (M ! j)"
proof -
  from run underscore_crt_value [OF nz, of U]
  have v: "v = sum_list (map (crt_term (prod_list M)) (zip U M)) mod prod_list M"
    by simp
  have "M ! j dvd prod_list M"
    using j by (simp add: prod_list_dvd)
  then have "v mod (M ! j) = sum_list (map (crt_term (prod_list M)) (zip U M)) mod (M ! j)"
    unfolding v by (rule mod_mod_cancel)
  also have "\<dots> = (U ! j) mod (M ! j)"
    by (rule crt_sum_mod [OF len j nz cop])
  finally show ?thesis .
qed

text \<open>
  C4. For pairwise-coprime positive moduli \<open>M\<close> of length \<open>n \<ge> 1\<close> and residues \<open>U\<close>
  of the same length with \<open>0 \<le> U[i] < M[i]\<close>, \<^verbatim>\<open>_crt(U, M)\<close> returns a value \<open>v\<close> with
  \<open>v mod M[i] = U[i]\<close> for every \<open>i\<close> and \<open>0 \<le> v < product(M)\<close>.
\<close>

theorem crt_direct_round_trip:
  assumes "length U = length M" and "M \<noteq> []"
    and "\<forall>m \<in> set M. 0 < m"
    and "\<forall>i < length M. \<forall>k < length M. i \<noteq> k \<longrightarrow> coprime (M ! i) (M ! k)"
    and "\<forall>i < length M. 0 \<le> U ! i \<and> U ! i < M ! i"
  shows "\<exists>v. underscore_crt U M = Inr v \<and> (\<forall>i < length M. v mod (M ! i) = U ! i)
           \<and> 0 \<le> v \<and> v < prod_seq M"
proof -
  have nz: "\<forall>m \<in> set M. m \<noteq> 0" using assms(3) by auto
  define v where "v = sum_list (map (crt_term (prod_list M)) (zip U M)) mod prod_list M"
  have run: "underscore_crt U M = Inr v"
    unfolding v_def by (rule underscore_crt_value [OF nz])
  have pos: "0 < prod_list M"
    using assms(3) by (induction M) simp_all
  have "v mod (M ! i) = U ! i" if "i < length M" for i
  proof -
    have "v mod (M ! i) = (U ! i) mod (M ! i)"
      by (rule underscore_crt_cong [OF assms(1) that nz assms(4) run])
    with assms(5) that show ?thesis by simp
  qed
  moreover have "0 \<le> v" "v < prod_seq M"
    unfolding v_def prod_seq_prod_list using pos by simp_all
  ultimately show ?thesis using run by blast
qed

theorem crt_direct_round_trip_witness:
  "underscore_crt [49, 76, 65] [99, 97, 95] = Inr 639985
   \<and> map (\<lambda>m. 639985 mod m) [99, 97, 95] = [49, 76, 65 :: int]
   \<and> (0::int) \<le> 639985 \<and> 639985 < prod_seq [99, 97, 95]"
proof -
  have run: "underscore_crt [49, 76, 65] [99, 97, 95] = Inr 639985"
    by code_simp
  have cop: "coprime (99::int) 97" "coprime (99::int) 95" "coprime (97::int) 95"
    "coprime (97::int) 99" "coprime (95::int) 99" "coprime (95::int) 97"
    by code_simp+
  have "\<exists>v. underscore_crt [49, 76, 65] [99, 97, 95] = Inr v
          \<and> (\<forall>i < length [99, 97, 95 :: int]. v mod ([99, 97, 95] ! i) = [49, 76, 65] ! i)
          \<and> 0 \<le> v \<and> v < prod_seq [99, 97, 95]"
    by (rule crt_direct_round_trip) (simp_all add: All_less_Suc cop)
  with run show ?thesis by (simp add: All_less_Suc)
qed

text \<open>
  How \<^verbatim>\<open>crt\<close> with \<^verbatim>\<open>check=True\<close> decides: once \<^verbatim>\<open>_crt\<close> has returned, no zipped modulus
  is zero, so the generator raises nothing and \<^verbatim>\<open>all\<close> is the conjunction of the checks.
\<close>

lemma crt_check_decides:
  assumes "underscore_crt v m = Inr result"
  shows "crt m v True =
           (if \<forall>(vi, mi) \<in> set (zip v m). vi mod mi = result mod mi
            then Inr (Some result)
            else solve_congruence False (zip v m))"
proof -
  from assms obtain w where "crt_loop (prod_seq m) 0 (zip v m) = Inr w"
    by (auto simp: underscore_crt_def Let_def split: sum.splits)
  then have "\<forall>(vi, mi) \<in> set (zip v m). mi \<noteq> 0"
    by (rule crt_loop_Inr_nonzero)
  then have agree: "residues_agree result (zip v m)
             = Inr (\<forall>(vi, mi) \<in> set (zip v m). vi mod mi = result mod mi)"
    by (rule residues_agree_all)
  show ?thesis
  proof (cases "\<forall>(vi, mi) \<in> set (zip v m). vi mod mi = result mod mi")
    case True
    with agree have "residues_agree result (zip v m) = Inr True" by simp
    then show ?thesis
      unfolding if_P [OF True] by (simp add: crt_def assms)
  next
    case False
    with agree have "residues_agree result (zip v m) = Inr False" by simp
    then show ?thesis
      unfolding if_not_P [OF False] by (simp add: crt_def assms)
  qed
qed

text \<open>
  C6. When \<^verbatim>\<open>crt(m, v, check=True)\<close> has its candidate \<open>result\<close> from \<^verbatim>\<open>_crt\<close>: if some
  pair fails \<open>v\<^sub>i mod m\<^sub>i = result mod m\<^sub>i\<close> it returns exactly what \<^verbatim>\<open>solve_congruence\<close>
  returns on the zipped (residue, modulus) pairs with \<^verbatim>\<open>check=False\<close>; if every pair
  passes it returns the candidate.
\<close>

theorem crt_check_fallback:
  assumes "underscore_crt v m = Inr result"
  shows "crt m v True =
           (if \<forall>(vi, mi) \<in> set (zip v m). vi mod mi = result mod mi
            then Inr (Some result)
            else solve_congruence False (zip v m))"
  using assms by (rule crt_check_decides)

theorem crt_check_fallback_witness:
  "underscore_crt [49, 76, 65] [99, 97, 95] = Inr 639985
   \<and> crt [99, 97, 95] [49, 76, 65] True = Inr (Some 639985)
   \<and> underscore_crt [2, 5] [3, 6] = Inr 15
   \<and> (2::int) mod 3 \<noteq> 15 mod 3
   \<and> crt [3, 6] [2, 5] True = solve_congruence False [(2, 3), (5, 6)]
   \<and> solve_congruence False [(2, 3), (5, 6)] = Inr (Some 5)"
proof -
  have pass: "underscore_crt [49, 76, 65] [99, 97, 95] = Inr 639985"
    by code_simp
  have fail: "underscore_crt [2, 5] [3, 6] = Inr 15"
    by code_simp
  have solve: "solve_congruence False [(2, 3), (5, 6)] = Inr (Some 5)"
    by code_simp
  from crt_check_fallback [OF pass] crt_check_fallback [OF fail] pass fail solve
  show ?thesis by simp
qed


text \<open>
  On pairwise-coprime nonzero moduli every check passes, so \<^verbatim>\<open>crt\<close> returns the value
  of \<^verbatim>\<open>_crt\<close>: the integer alone, since \<^verbatim>\<open>crt\<close> ends with \<^verbatim>\<open>return result\<close>.
\<close>

lemma crt_coprime_fast_path:
  assumes len: "length V = length M"
    and nz: "\<forall>m \<in> set M. m \<noteq> 0"
    and cop: "\<forall>i < length M. \<forall>k < length M. i \<noteq> k \<longrightarrow> coprime (M ! i) (M ! k)"
  shows "\<exists>r. underscore_crt V M = Inr r \<and> crt M V check = Inr (Some r)"
proof -
  obtain r where run: "underscore_crt V M = Inr r"
    using underscore_crt_value [OF nz] by blast
  have "vi mod mi = r mod mi" if "(vi, mi) \<in> set (zip V M)" for vi mi
  proof -
    from that obtain j where "j < length M" "V ! j = vi" "M ! j = mi"
      using len by (auto simp: in_set_zip)
    with underscore_crt_cong [OF len _ nz cop run, of j] show ?thesis by simp
  qed
  then have "\<forall>(vi, mi) \<in> set (zip V M). vi mod mi = r mod mi" by auto
  with crt_check_decides [OF run] run show ?thesis
    by (cases check) (simp_all add: crt_def)
qed

text \<open>
  C2. The worked example of the docstring of \<^verbatim>\<open>crt\<close>: \<^verbatim>\<open>_crt([49, 76, 65], [99, 97, 95])\<close>
  is 639985 and the product of the moduli is 912285, but \<^verbatim>\<open>crt([99, 97, 95], [49, 76, 65])\<close>
  returns the integer 639985, not the pair \<open>(639985, 912285)\<close> that the docstring shows.
\<close>

theorem crt_docstring_example:
  "crt [99, 97, 95] [49, 76, 65] True = Inr (Some 639985)
   \<and> underscore_crt [49, 76, 65] [99, 97, 95] = Inr 639985
   \<and> prod_seq [99, 97, 95] = 912285"
  by code_simp

section \<open>Properties of \<^verbatim>\<open>combine\<close> and \<^verbatim>\<open>solve_congruence\<close>\<close>

text \<open>
  On nonzero moduli \<^verbatim>\<open>combine\<close> raises nothing. It returns \<^verbatim>\<open>None\<close> only when no integer
  satisfies both congruences, and otherwise a pair \<open>(a, m)\<close> with \<open>m \<noteq> 0\<close> whose
  congruence class is exactly the set of common solutions.
\<close>

lemma combine_unfold:
  fixes a1 m1 a2 m2 :: int
  defines "g \<equiv> gcd (gcd m1 (a2 - a1)) m2"
  assumes "m1 \<noteq> 0"
  shows "combine (a1, m1) (a2, m2) =
           (if m1 div g \<noteq> 1
            then (case gcdex (m1 div g) (m2 div g) of (inv_a, _, g') \<Rightarrow>
                    if g' \<noteq> 1 then Inr None
                    else Inr (Some (a1 + m1 * ((a2 - a1) div g * inv_a), m1 * (m2 div g))))
            else Inr (Some (a1 + m1 * ((a2 - a1) div g), m1 * (m2 div g))))"
  unfolding combine_def g_def using assms(2) by (simp add: Let_def)

lemma combine_correct:
  assumes m1: "m1 \<noteq> 0" and m2: "m2 \<noteq> 0"
  shows "(combine (a1, m1) (a2, m2) = Inr None \<and> (\<forall>x. \<not> (m1 dvd x - a1 \<and> m2 dvd x - a2)))
       \<or> (\<exists>a m. combine (a1, m1) (a2, m2) = Inr (Some (a, m)) \<and> m \<noteq> 0
             \<and> (0 < m1 \<and> 0 < m2 \<longrightarrow> 0 < m)
             \<and> (\<forall>x. m dvd x - a \<longleftrightarrow> m1 dvd x - a1 \<and> m2 dvd x - a2))"
proof -
  define b where "b = a2 - a1"
  define g where "g = gcd (gcd m1 b) m2"
  define a' where "a' = m1 div g"
  define b' where "b' = b div g"
  define c' where "c' = m2 div g"
  have g_pos: "0 < g" using m1 unfolding g_def by (simp add: less_le)
  have g_dvd: "g dvd m1" "g dvd b" "g dvd m2"
    unfolding g_def by (simp_all add: gcd.assoc [symmetric] dvd_trans [OF gcd_dvd1])
  have m1_eq: "m1 = a' * g" and b_eq: "b = b' * g" and m2_eq: "m2 = c' * g"
    unfolding a'_def b'_def c'_def using g_dvd by simp_all
  have c_nz: "c' \<noteq> 0" using m2 m2_eq by auto
  have a_nz: "a' \<noteq> 0" using m1 m1_eq by auto
  have c_pos: "0 < c'" if "0 < m2"
    using that g_pos m2_eq by (simp add: zero_less_mult_iff)
  have unf: "combine (a1, m1) (a2, m2) =
           (if a' \<noteq> 1
            then (case gcdex a' c' of (inv_a, _, g') \<Rightarrow>
                    if g' \<noteq> 1 then Inr None
                    else Inr (Some (a1 + m1 * (b' * inv_a), m1 * c')))
            else Inr (Some (a1 + m1 * b', m1 * c')))"
    unfolding a'_def b'_def c'_def g_def b_def by (rule combine_unfold [OF m1])
  have m_nz: "m1 * c' \<noteq> 0" using m1 c_nz by simp
  have m_pos: "0 < m1 \<and> 0 < m2 \<longrightarrow> 0 < m1 * c'" using c_pos by simp
  have common: "\<And>d. d dvd a' \<Longrightarrow> d dvd b' \<Longrightarrow> d dvd c' \<Longrightarrow> is_unit d"
  proof -
    fix d assume d: "d dvd a'" "d dvd b'" "d dvd c'"
    then have "d * g dvd m1" "d * g dvd b" "d * g dvd m2"
      unfolding m1_eq b_eq m2_eq by simp_all
    then have "d * g dvd g" unfolding g_def by simp
    then have "d * g dvd 1 * g" by simp
    then show "is_unit d" using g_pos by (simp only: dvd_mult_cancel_right) simp
  qed
  \<comment> \<open>a solution of both congruences, expressed with the reduced coefficients\<close>
  have reduce: "c' dvd a' * k - b'" if "m2 dvd (a1 + m1 * k) - a2" for k
  proof -
    have "(a1 + m1 * k) - a2 = (a' * k - b') * g"
      unfolding m1_eq using b_eq b_def by (simp add: algebra_simps)
    with that have "c' * g dvd (a' * k - b') * g" unfolding m2_eq by simp
    then show ?thesis using g_pos by simp
  qed
  show ?thesis
  proof (cases "a' = 1")
    case True
    then have m1g: "m1 = g" using m1_eq by simp
    have res: "combine (a1, m1) (a2, m2) = Inr (Some (a1 + m1 * b', m1 * c'))"
      using unf True by simp
    have val: "a1 + m1 * b' = a2" "m1 * c' = m2"
      using m1g b_eq m2_eq b_def by (simp_all add: mult.commute)
    have "m2 dvd x - a2 \<longleftrightarrow> m1 dvd x - a1 \<and> m2 dvd x - a2" for x
    proof -
      have "m1 dvd x - a1" if "m2 dvd x - a2"
      proof -
        have "m1 dvd m2" using g_dvd(3) m1g by simp
        from this that have "m1 dvd x - a2" by (rule dvd_trans)
        moreover have "m1 dvd a2 - a1" using g_dvd(2) m1g b_def by simp
        ultimately have "m1 dvd (x - a2) + (a2 - a1)" by (rule dvd_add)
        then show ?thesis by simp
      qed
      then show ?thesis by blast
    qed
    with res val m2 m_pos show ?thesis by auto
  next
    case False
    obtain inv_a t g2 where run: "gcdex a' c' = (inv_a, t, g2)"
      by (cases "gcdex a' c'")
    from gcdex_bezout_all [OF run]
    have bez: "inv_a * a' + t * c' = g2" and g2: "g2 = gcd a' c'"
      by simp_all
    show ?thesis
    proof (cases "g2 = 1")
      case g2_ne: False
      have res: "combine (a1, m1) (a2, m2) = Inr None"
        using unf False run g2_ne by simp
      have "\<not> (m1 dvd x - a1 \<and> m2 dvd x - a2)" for x
      proof
        assume sol: "m1 dvd x - a1 \<and> m2 dvd x - a2"
        then obtain k where "x - a1 = m1 * k" by (auto simp: dvd_def)
        then have x: "x = a1 + m1 * k" by simp
        from sol have "c' dvd a' * k - b'" unfolding x by (intro reduce) simp
        then have "g2 dvd a' * k - b'"
          unfolding g2 by (rule dvd_trans [OF gcd_dvd2])
        moreover have "g2 dvd a' * k" unfolding g2 by simp
        ultimately have "g2 dvd a' * k - (a' * k - b')" by (rule dvd_diff [rotated])
        then have "g2 dvd b'" by simp
        then have "is_unit g2"
          by (intro common) (simp_all add: g2)
        moreover have "0 \<le> g2" unfolding g2 by simp
        ultimately have "g2 = 1" by simp
        with g2_ne show False by contradiction
      qed
      with res show ?thesis by blast
    next
      case g2_1: True
      define A where "A = a1 + m1 * (b' * inv_a)"
      have res: "combine (a1, m1) (a2, m2) = Inr (Some (A, m1 * c'))"
        using unf False run g2_1 unfolding A_def by simp
      have cop: "coprime a' c'"
        using g2 g2_1 by (simp add: coprime_iff_gcd_eq_1)
      have inv: "a' * inv_a - 1 = - t * c'"
        using bez g2_1 by (simp add: algebra_simps)
      have A1: "m1 dvd A - a1" unfolding A_def by simp
      have "A - a2 = g * b' * (a' * inv_a - 1)"
        unfolding A_def m1_eq using b_eq b_def by (simp add: algebra_simps)
      also have "\<dots> = m2 * (- t * b')"
        unfolding inv m2_eq by (simp add: algebra_simps)
      finally have A2: "m2 dvd A - a2" by simp
      have "m1 * c' dvd x - A \<longleftrightarrow> m1 dvd x - a1 \<and> m2 dvd x - a2" for x
      proof
        assume dv: "m1 * c' dvd x - A"
        then have "m1 dvd x - A" by (rule dvd_mult_left)
        with A1 have "m1 dvd (x - A) + (A - a1)" by (rule dvd_add [rotated])
        then have 1: "m1 dvd x - a1" by simp
        have "m2 dvd m1 * c'" unfolding m1_eq m2_eq by simp
        with dv have "m2 dvd x - A" by (rule dvd_trans [rotated])
        with A2 have "m2 dvd (x - A) + (A - a2)" by (rule dvd_add [rotated])
        then have "m2 dvd x - a2" by simp
        with 1 show "m1 dvd x - a1 \<and> m2 dvd x - a2" ..
      next
        assume sol: "m1 dvd x - a1 \<and> m2 dvd x - a2"
        then have s1: "m1 dvd x - a1" and s2: "m2 dvd x - a2" by simp_all
        from s1 A1 have "m1 dvd (x - a1) - (A - a1)" by (rule dvd_diff)
        then have xm1: "m1 dvd x - A" by simp
        from s2 A2 have "m2 dvd (x - a2) - (A - a2)" by (rule dvd_diff)
        then have xm2: "m2 dvd x - A" by simp
        from g_dvd(1) xm1 have "g dvd x - A" by (rule dvd_trans)
        then obtain y where y: "x - A = g * y" by (rule dvdE)
        from xm1 have "a' * g dvd y * g" unfolding m1_eq y by (simp add: mult.commute)
        then have ay: "a' dvd y" using g_pos by simp
        from xm2 have "c' * g dvd y * g" unfolding m2_eq y by (simp add: mult.commute)
        then have cy: "c' dvd y" using g_pos by simp
        from ay cy cop have "a' * c' dvd y" by (rule divides_mult)
        then have "(a' * c') * g dvd y * g" by simp
        then show "m1 * c' dvd x - A"
          unfolding y m1_eq by (simp add: mult_ac)
      qed
      with res m_nz m_pos show ?thesis by blast
    qed
  qed
qed

text \<open>The fold: \<^verbatim>\<open>rv\<close> always describes the solutions of the pairs consumed so far.\<close>

lemma satisfies_Nil: "satisfies x []"
  by (simp add: satisfies_def)

lemma satisfies_Cons:
  "satisfies x ((a, m) # rm) \<longleftrightarrow> m dvd x - a \<and> satisfies x rm"
  by (simp add: satisfies_def mod_eq_dvd_iff)

lemma satisfies_append:
  "satisfies x (rm @ rm') \<longleftrightarrow> satisfies x rm \<and> satisfies x rm'"
  by (auto simp: satisfies_def)

lemma satisfies_mem:
  "satisfies x rm \<Longrightarrow> (a, m) \<in> set rm \<Longrightarrow> m dvd x - a"
  by (auto simp: satisfies_def mod_eq_dvd_iff)

lemma solve_loop_correct:
  assumes "m0 \<noteq> 0" and "\<forall>(a, m) \<in> set rm. m \<noteq> 0"
  shows "(solve_loop (a0, m0) nm rm = Inr Break \<and> (\<forall>x. \<not> satisfies x ((a0, m0) # rm)))
       \<or> (\<exists>nm'. solve_loop (a0, m0) nm rm = Inr (Exhausted nm')
            \<and> (if rm = [] then nm' = nm
                else \<exists>A M. nm' = Some (A mod M, M) \<and> M \<noteq> 0
                       \<and> (0 < m0 \<and> (\<forall>(a, m) \<in> set rm. 0 < m) \<longrightarrow> 0 < M)
                       \<and> (\<forall>x. M dvd x - A \<longleftrightarrow> satisfies x ((a0, m0) # rm))))"
  using assms
proof (induction rm arbitrary: a0 m0 nm)
  case Nil
  show ?case by simp
next
  case (Cons rmi rest)
  obtain a2 m2 where rmi: "rmi = (a2, m2)" by (cases rmi)
  from Cons.prems rmi have m2: "m2 \<noteq> 0" and rest_nz: "\<forall>(a, m) \<in> set rest. m \<noteq> 0"
    by simp_all
  from combine_correct [OF Cons.prems(1) m2, of a0 a2]
  consider (incompatible) "combine (a0, m0) (a2, m2) = Inr None"
      "\<forall>x. \<not> (m0 dvd x - a0 \<and> m2 dvd x - a2)"
    | (merged) A1 M1 where "combine (a0, m0) (a2, m2) = Inr (Some (A1, M1))" "M1 \<noteq> 0"
      "0 < m0 \<and> 0 < m2 \<longrightarrow> 0 < M1"
      "\<forall>x. M1 dvd x - A1 \<longleftrightarrow> m0 dvd x - a0 \<and> m2 dvd x - a2"
    by blast
  then show ?case
  proof cases
    case incompatible
    then show ?thesis
      by (auto simp: rmi satisfies_Cons)
  next
    case merged
    have run: "solve_loop (a0, m0) nm (rmi # rest)
               = solve_loop (A1, M1) (Some (A1 mod M1, M1)) rest"
      using merged(1,2) by (simp add: rmi)
    have equiv: "satisfies x ((A1, M1) # rest) \<longleftrightarrow> satisfies x ((a0, m0) # rmi # rest)" for x
      using merged(4) by (simp add: rmi satisfies_Cons)
    from Cons.IH [OF merged(2) rest_nz, of A1 "Some (A1 mod M1, M1)"]
    consider (brk) "solve_loop (A1, M1) (Some (A1 mod M1, M1)) rest = Inr Break"
        "\<forall>x. \<not> satisfies x ((A1, M1) # rest)"
      | (finished) nm' where "solve_loop (A1, M1) (Some (A1 mod M1, M1)) rest = Inr (Exhausted nm')"
        "if rest = [] then nm' = Some (A1 mod M1, M1)
         else \<exists>A M. nm' = Some (A mod M, M) \<and> M \<noteq> 0
                \<and> (0 < M1 \<and> (\<forall>(a, m) \<in> set rest. 0 < m) \<longrightarrow> 0 < M)
                \<and> (\<forall>x. M dvd x - A \<longleftrightarrow> satisfies x ((A1, M1) # rest))"
      by blast
    then show ?thesis
    proof cases
      case brk
      then show ?thesis unfolding run using equiv by simp
    next
      case finished
      have "\<exists>A M. nm' = Some (A mod M, M) \<and> M \<noteq> 0
              \<and> (0 < m0 \<and> (\<forall>(a, m) \<in> set (rmi # rest). 0 < m) \<longrightarrow> 0 < M)
              \<and> (\<forall>x. M dvd x - A \<longleftrightarrow> satisfies x ((a0, m0) # rmi # rest))"
      proof (cases "rest = []")
        case True
        with finished(2) have "nm' = Some (A1 mod M1, M1)" by simp
        moreover have "\<forall>x. M1 dvd x - A1 \<longleftrightarrow> satisfies x ((a0, m0) # rmi # rest)"
          using merged(4) True by (simp add: rmi satisfies_Cons satisfies_Nil)
        moreover have "0 < m0 \<and> (\<forall>(a, m) \<in> set (rmi # rest). 0 < m) \<longrightarrow> 0 < M1"
          using merged(3) by (simp add: rmi)
        ultimately show ?thesis using merged(2) by blast
      next
        case False
        with finished(2) have "\<exists>A M. nm' = Some (A mod M, M) \<and> M \<noteq> 0
                \<and> (0 < M1 \<and> (\<forall>(a, m) \<in> set rest. 0 < m) \<longrightarrow> 0 < M)
                \<and> (\<forall>x. M dvd x - A \<longleftrightarrow> satisfies x ((A1, M1) # rest))"
          by (simp only: if_False)
        then obtain A M where AM: "nm' = Some (A mod M, M)" "M \<noteq> 0"
          "0 < M1 \<and> (\<forall>(a, m) \<in> set rest. 0 < m) \<longrightarrow> 0 < M"
          "\<forall>x. M dvd x - A \<longleftrightarrow> satisfies x ((A1, M1) # rest)"
          by blast
        have "0 < m0 \<and> (\<forall>(a, m) \<in> set (rmi # rest). 0 < m) \<longrightarrow> 0 < M"
          using AM(3) merged(3) by (simp add: rmi)
        moreover have "\<forall>x. M dvd x - A \<longleftrightarrow> satisfies x ((a0, m0) # rmi # rest)"
          using AM(4) equiv by simp
        ultimately show ?thesis using AM(1,2) by blast
      qed
      with finished(1) show ?thesis unfolding run by simp
    qed
  qed
qed

text \<open>
  The \<^verbatim>\<open>check\<close> pass keeps the solutions of the system: it returns \<^verbatim>\<open>None\<close> only on two
  pairs with one modulus and different reduced residues, and drops only repeated pairs.
\<close>

lemma dedup_loop_correct:
  assumes "\<forall>(r, m) \<in> set rm. m \<noteq> 0"
    and "\<forall>(m, r) \<in> set uniq. m \<noteq> 0 \<and> r mod m = r"
  shows "(dedup_loop uniq rm = Inr None
            \<and> (\<forall>x. \<not> satisfies x (map (\<lambda>(m, r). (r, m)) uniq @ rm)))
       \<or> (\<exists>uniq'. dedup_loop uniq rm = Inr (Some uniq')
            \<and> (\<forall>(m, r) \<in> set uniq'. m \<noteq> 0)
            \<and> (uniq' = [] \<longrightarrow> uniq = [] \<and> rm = [])
            \<and> ((\<forall>(m, r) \<in> set uniq. 0 < m) \<and> (\<forall>(r, m) \<in> set rm. 0 < m)
                  \<longrightarrow> (\<forall>(m, r) \<in> set uniq'. 0 < m))
            \<and> (\<forall>x. satisfies x (map (\<lambda>(m, r). (r, m)) uniq')
                     \<longleftrightarrow> satisfies x (map (\<lambda>(m, r). (r, m)) uniq @ rm)))"
  using assms
proof (induction rm arbitrary: uniq)
  case Nil
  then have "\<forall>(m, r) \<in> set uniq. m \<noteq> 0" by auto
  then show ?case by simp
next
  case (Cons p rest)
  obtain r m where p: "p = (r, m)" by (cases p)
  from Cons.prems(1) p have m: "m \<noteq> 0" and rest_nz: "\<forall>(r, m) \<in> set rest. m \<noteq> 0"
    by simp_all
  let ?flip = "map (\<lambda>(m, r). (r, m))"
  show ?case
  proof (cases "map_of uniq m")
    case None
    let ?uniq = "uniq @ [(m, r mod m)]"
    have run: "dedup_loop uniq (p # rest) = dedup_loop ?uniq rest"
      using m None by (simp add: p Let_def)
    have inv: "\<forall>(m, r) \<in> set ?uniq. m \<noteq> 0 \<and> r mod m = r"
      using Cons.prems(2) m by auto
    have equiv: "satisfies x (?flip ?uniq @ rest) \<longleftrightarrow> satisfies x (?flip uniq @ p # rest)" for x
    proof -
      have "m dvd x - r mod m \<longleftrightarrow> m dvd x - r"
        by (simp add: mod_eq_dvd_iff [symmetric])
      then show ?thesis
        by (simp add: p satisfies_append satisfies_Cons satisfies_Nil)
    qed
    have pos: "(\<forall>(m, r) \<in> set uniq. 0 < m) \<and> (\<forall>(r, m) \<in> set (p # rest). 0 < m)
               \<Longrightarrow> (\<forall>(m, r) \<in> set ?uniq. 0 < m) \<and> (\<forall>(r, m) \<in> set rest. 0 < m)"
      by (auto simp: p)
    from Cons.IH [OF rest_nz inv] show ?thesis
      unfolding run using equiv pos by (elim disjE exE conjE) (simp, blast)
  next
    case (Some r0)
    then have mem: "(m, r0) \<in> set uniq" by (rule map_of_SomeD)
    with Cons.prems(2) have r0: "r0 mod m = r0" by auto
    from mem have flip_mem: "(r0, m) \<in> set (?flip uniq)" by force
    show ?thesis
    proof (cases "r mod m = r0")
      case False
      have run: "dedup_loop uniq (p # rest) = Inr None"
        using m Some False by (simp add: p Let_def)
      have "\<not> satisfies x (?flip uniq @ p # rest)" for x
      proof
        assume sat: "satisfies x (?flip uniq @ p # rest)"
        then have "satisfies x (?flip uniq)" "m dvd x - r"
          by (simp_all add: p satisfies_append satisfies_Cons)
        then have "m dvd x - r0" "m dvd x - r"
          using flip_mem by (simp_all add: satisfies_mem)
        then have "x mod m = r0 mod m" "x mod m = r mod m"
          by (simp_all add: mod_eq_dvd_iff)
        with r0 False show False by simp
      qed
      with run show ?thesis by blast
    next
      case True
      have run: "dedup_loop uniq (p # rest) = dedup_loop uniq rest"
        using m Some True by (simp add: p Let_def)
      have equiv: "satisfies x (?flip uniq @ rest) \<longleftrightarrow> satisfies x (?flip uniq @ p # rest)" for x
      proof -
        have "m dvd x - r" if "satisfies x (?flip uniq)"
        proof -
          from that flip_mem have "m dvd x - r0" by (rule satisfies_mem)
          then have "x mod m = r0 mod m" by (simp add: mod_eq_dvd_iff)
          then have "x mod m = r mod m"
            using True r0 by simp
          then show ?thesis by (simp add: mod_eq_dvd_iff)
        qed
        then show ?thesis
          by (auto simp: p satisfies_append satisfies_Cons)
      qed
      have ne: "uniq \<noteq> []" using mem by auto
      from Cons.IH [OF rest_nz Cons.prems(2)] show ?thesis
        unfolding run using equiv ne by (elim disjE exE conjE) (simp, force)
    qed
  qed
qed

text \<open>
  The whole function on a non-empty system with nonzero moduli: it raises nothing, it
  returns \<^verbatim>\<open>None\<close> exactly when the system has no solution, and otherwise its locals at
  \<^verbatim>\<open>return n\<close> are a reduced pair \<open>(n, M)\<close> whose class is the set of solutions.
\<close>

lemma solve_locals_correct:
  assumes ne: "rm \<noteq> []" and nz: "\<forall>(a, m) \<in> set rm. m \<noteq> 0"
  shows "(solve_locals check rm = Inr None \<and> (\<forall>x. \<not> satisfies x rm))
       \<or> (\<exists>A M. solve_locals check rm = Inr (Some (A mod M, M)) \<and> M \<noteq> 0
             \<and> ((\<forall>(a, m) \<in> set rm. 0 < m) \<longrightarrow> 0 < M)
             \<and> (\<forall>x. M dvd x - A \<longleftrightarrow> satisfies x rm))"
proof -
  let ?pre = "if check then dedup rm else Inr (Some rm)"
  have pre: "(?pre = Inr None \<and> (\<forall>x. \<not> satisfies x rm))
       \<or> (\<exists>rm'. ?pre = Inr (Some rm') \<and> rm' \<noteq> [] \<and> (\<forall>(a, m) \<in> set rm'. m \<noteq> 0)
             \<and> ((\<forall>(a, m) \<in> set rm. 0 < m) \<longrightarrow> (\<forall>(a, m) \<in> set rm'. 0 < m))
             \<and> (\<forall>x. satisfies x rm' \<longleftrightarrow> satisfies x rm))"
  proof (cases check)
    case False
    with ne nz show ?thesis by simp
  next
    case True
    from dedup_loop_correct [OF nz, of "[]"]
    consider (contradiction) "dedup_loop [] rm = Inr None" "\<forall>x. \<not> satisfies x rm"
      | (collapsed) uniq where "dedup_loop [] rm = Inr (Some uniq)"
        "\<forall>(m, r) \<in> set uniq. m \<noteq> 0" "uniq \<noteq> []"
        "(\<forall>(r, m) \<in> set rm. 0 < m) \<longrightarrow> (\<forall>(m, r) \<in> set uniq. 0 < m)"
        "\<forall>x. satisfies x (map (\<lambda>(m, r). (r, m)) uniq) \<longleftrightarrow> satisfies x rm"
      using ne by auto
    then show ?thesis
    proof cases
      case contradiction
      with True show ?thesis by (simp add: dedup_def)
    next
      case collapsed
      let ?rm' = "map (\<lambda>(m, r). (r, m)) uniq"
      have "?pre = Inr (Some ?rm')" using True collapsed(1) by (simp add: dedup_def)
      moreover have "?rm' \<noteq> []" using collapsed(3) by simp
      moreover have "\<forall>(a, m) \<in> set ?rm'. m \<noteq> 0" using collapsed(2) by auto
      moreover have "(\<forall>(a, m) \<in> set rm. 0 < m) \<longrightarrow> (\<forall>(a, m) \<in> set ?rm'. 0 < m)"
        using collapsed(4) by auto
      ultimately show ?thesis using collapsed(5) by blast
    qed
  qed
  then consider (none) "?pre = Inr None" "\<forall>x. \<not> satisfies x rm"
    | (some) rm' where "?pre = Inr (Some rm')" "rm' \<noteq> []" "\<forall>(a, m) \<in> set rm'. m \<noteq> 0"
        "(\<forall>(a, m) \<in> set rm. 0 < m) \<longrightarrow> (\<forall>(a, m) \<in> set rm'. 0 < m)"
        "\<forall>x. satisfies x rm' \<longleftrightarrow> satisfies x rm"
    by blast
  then show ?thesis
  proof cases
    case none
    then show ?thesis by (simp add: solve_locals_def)
  next
    case some
    have start: "satisfies x ((0, 1) # rm') \<longleftrightarrow> satisfies x rm" for x
      using some(5) by (simp add: satisfies_Cons)
    have "(1::int) \<noteq> 0" by simp
    from solve_loop_correct [OF this some(3), of 0 None]
    have "(solve_loop (0, 1) None rm' = Inr Break \<and> (\<forall>x. \<not> satisfies x ((0, 1) # rm')))
       \<or> (\<exists>nm'. solve_loop (0, 1) None rm' = Inr (Exhausted nm')
            \<and> (\<exists>A M. nm' = Some (A mod M, M) \<and> M \<noteq> 0
                       \<and> ((0::int) < 1 \<and> (\<forall>(a, m) \<in> set rm'. 0 < m) \<longrightarrow> 0 < M)
                       \<and> (\<forall>x. M dvd x - A \<longleftrightarrow> satisfies x ((0, 1) # rm'))))"
      by (simp only: some(2) if_False)
    then consider (stopped) "solve_loop (0, 1) None rm' = Inr Break"
        "\<forall>x. \<not> satisfies x ((0, 1) # rm')"
      | (finished) A M where "solve_loop (0, 1) None rm' = Inr (Exhausted (Some (A mod M, M)))"
        "M \<noteq> 0" "(\<forall>(a, m) \<in> set rm'. 0 < m) \<longrightarrow> 0 < M"
        "\<forall>x. M dvd x - A \<longleftrightarrow> satisfies x ((0, 1) # rm')"
      using zero_less_one [where 'a = int] by blast
    then show ?thesis
    proof cases
      case stopped
      then show ?thesis using some(1) start by (simp add: solve_locals_def)
    next
      case finished
      have "solve_locals check rm = Inr (Some (A mod M, M))"
        using some(1) finished(1) by (simp add: solve_locals_def)
      moreover have "(\<forall>(a, m) \<in> set rm. 0 < m) \<longrightarrow> 0 < M"
        using some(4) finished(3) by blast
      moreover have "\<forall>x. M dvd x - A \<longleftrightarrow> satisfies x rm"
        using finished(4) start by simp
      ultimately show ?thesis using finished(2) by blast
    qed
  qed
qed

lemma solve_locals_result:
  assumes "rm \<noteq> []" and "\<forall>(a, m) \<in> set rm. m \<noteq> 0"
    and "solve_locals check rm = Inr (Some (n, M))"
  shows "M \<noteq> 0" and "n mod M = n" and "\<forall>x. satisfies x rm \<longleftrightarrow> M dvd x - n"
    and "(\<forall>(a, m) \<in> set rm. 0 < m) \<longrightarrow> 0 < M"
proof -
  from solve_locals_correct [OF assms(1,2), of check] assms(3)
  obtain A where A: "n = A mod M" "M \<noteq> 0" "(\<forall>(a, m) \<in> set rm. 0 < m) \<longrightarrow> 0 < M"
    "\<forall>x. M dvd x - A \<longleftrightarrow> satisfies x rm"
    by auto
  show "M \<noteq> 0" by (rule A(2))
  show "n mod M = n" unfolding A(1) by simp
  show "(\<forall>(a, m) \<in> set rm. 0 < m) \<longrightarrow> 0 < M" by (rule A(3))
  have "M dvd x - A \<longleftrightarrow> M dvd x - n" for x
    unfolding A(1) by (simp add: mod_eq_dvd_iff [symmetric])
  with A(4) show "\<forall>x. satisfies x rm \<longleftrightarrow> M dvd x - n" by simp
qed

lemma solve_locals_cases:
  assumes "rm \<noteq> []" and "\<forall>(a, m) \<in> set rm. m \<noteq> 0"
  shows "(solve_locals check rm = Inr None \<and> (\<forall>x. \<not> satisfies x rm))
       \<or> (\<exists>n M. solve_locals check rm = Inr (Some (n, M)) \<and> satisfies n rm)"
proof -
  from solve_locals_correct [OF assms, of check]
  consider "solve_locals check rm = Inr None" "\<forall>x. \<not> satisfies x rm"
    | n M where "solve_locals check rm = Inr (Some (n, M))"
    by blast
  then show ?thesis
  proof cases
    case 1
    then show ?thesis by simp
  next
    case 2
    from solve_locals_result(3) [OF assms 2] have "satisfies n rm" by simp
    with 2 show ?thesis by blast
  qed
qed

lemma satisfies_sign:
  assumes "map (\<lambda>(a, m). (a, \<bar>m\<bar>)) rm' = map (\<lambda>(a, m). (a, \<bar>m\<bar>)) rm"
  shows "satisfies x rm' \<longleftrightarrow> satisfies x rm"
  using assms
proof (induction rm arbitrary: rm')
  case Nil
  then show ?case by simp
next
  case (Cons p rm)
  from Cons.prems obtain p' rest where rm': "rm' = p' # rest" by (cases rm') auto
  obtain a m where p: "p = (a, m)" by (cases p)
  obtain a' m' where p': "p' = (a', m')" by (cases p')
  from Cons.prems have eq: "a' = a" "\<bar>m'\<bar> = \<bar>m\<bar>"
    and rest: "map (\<lambda>(a, m). (a, \<bar>m\<bar>)) rest = map (\<lambda>(a, m). (a, \<bar>m\<bar>)) rm"
    by (simp_all add: rm' p p')
  have "m' dvd x - a \<longleftrightarrow> m dvd x - a"
    using eq(2) by (metis abs_dvd_iff)
  with Cons.IH [OF rest] show ?case
    by (simp add: rm' p p' eq(1) satisfies_Cons)
qed

text \<open>
  C1, as the code has it. For every non-empty sequence of (residue, modulus) pairs with
  nonzero moduli whose system is satisfiable, \<^verbatim>\<open>solve_congruence\<close> raises nothing and
  does not return \<^verbatim>\<open>None\<close>: it ends at \<^verbatim>\<open>return n\<close> with locals \<open>(n, M)\<close>, where \<open>n\<close>
  satisfies \<open>n mod m = a mod m\<close> for every input pair \<open>(a, m)\<close>, and \<open>0 \<le> n < M\<close> when
  all the moduli are positive. On \<open>(2,3), (3,5), (2,7)\<close> the locals are \<open>(23, 105)\<close> and
  on \<open>(2,3), (5,6)\<close> they are \<open>(5, 6)\<close>.
\<close>

theorem solve_congruence_satisfiable:
  assumes "rm \<noteq> []" and "\<forall>(a, m) \<in> set rm. m \<noteq> 0" and "satisfies x rm"
  shows "\<exists>n M. solve_locals check rm = Inr (Some (n, M))
           \<and> solve_congruence check rm = Inr (Some n)
           \<and> satisfies n rm
           \<and> ((\<forall>(a, m) \<in> set rm. 0 < m) \<longrightarrow> 0 \<le> n \<and> n < M)"
proof -
  from solve_locals_cases [OF assms(1,2), of check] assms(3)
  obtain n M where run: "solve_locals check rm = Inr (Some (n, M))" and sat: "satisfies n rm"
    by blast
  note res = solve_locals_result [OF assms(1,2) run]
  have "0 \<le> n \<and> n < M" if "\<forall>(a, m) \<in> set rm. 0 < m"
  proof -
    from that res(4) have "0 < M" by simp
    then have "0 \<le> n mod M" "n mod M < M" by simp_all
    then show ?thesis unfolding res(2) by simp
  qed
  moreover have "solve_congruence check rm = Inr (Some n)"
    using run by (simp add: solve_congruence_def)
  ultimately show ?thesis using run sat by blast
qed

theorem solve_congruence_satisfiable_witness:
  "satisfies 23 [(2, 3), (3, 5), (2, 7)]
   \<and> solve_locals True [(2, 3), (3, 5), (2, 7)] = Inr (Some (23, 105))
   \<and> solve_congruence True [(2, 3), (3, 5), (2, 7)] = Inr (Some 23)
   \<and> (0::int) \<le> 23 \<and> (23::int) < 105
   \<and> satisfies 5 [(2, 3), (5, 6)]
   \<and> solve_locals True [(2, 3), (5, 6)] = Inr (Some (5, 6))
   \<and> solve_congruence True [(2, 3), (5, 6)] = Inr (Some 5)"
proof -
  have sat1: "satisfies 23 [(2, 3), (3, 5), (2, 7)]" by (simp add: satisfies_def)
  have sat2: "satisfies 5 [(2, 3), (5, 6)]" by (simp add: satisfies_def)
  have run1: "solve_locals True [(2, 3), (3, 5), (2, 7)] = Inr (Some (23, 105))"
    by code_simp
  have run2: "solve_locals True [(2, 3), (5, 6)] = Inr (Some (5, 6))"
    by code_simp
  from solve_congruence_satisfiable [OF _ _ sat1, of True] run1
  have "solve_congruence True [(2, 3), (3, 5), (2, 7)] = Inr (Some 23) \<and> (0::int) \<le> 23 \<and> (23::int) < 105"
    by simp
  moreover from solve_congruence_satisfiable [OF _ _ sat2, of True] run2
  have "solve_congruence True [(2, 3), (5, 6)] = Inr (Some 5)"
    by simp
  ultimately show ?thesis using sat1 sat2 run1 run2 by simp
qed

text \<open>
  The claim as first stated, for nonzero moduli of any sign, fails on the satisfiable
  system \<open>(2,3), (3,-5)\<close>: the value computed is \<open>-7\<close>, with combined modulus \<open>-15\<close>.
\<close>

theorem solve_congruence_negative_modulus_counterexample:
  "satisfies 8 [(2, 3), (3, - 5)]
   \<and> solve_locals True [(2, 3), (3, - 5)] = Inr (Some (- 7, - 15))
   \<and> solve_congruence True [(2, 3), (3, - 5)] = Inr (Some (- 7))
   \<and> (- 7 :: int) < 0"
proof -
  have "satisfies 8 [(2, 3), (3, - 5)]" by (simp add: satisfies_def)
  moreover have "solve_locals True [(2, 3), (3, - 5)] = Inr (Some (- 7, - 15))"
    by code_simp
  moreover have "solve_congruence True [(2, 3), (3, - 5)] = Inr (Some (- 7))"
    by code_simp
  ultimately show ?thesis by simp
qed

text \<open>
  C5, as the code has it. For every non-empty sequence of pairs with nonzero moduli,
  \<^verbatim>\<open>solve_congruence\<close> raises nothing, and it returns \<^verbatim>\<open>None\<close> if (and only if) the system
  is unsatisfiable; in particular on \<open>(2,3), (4,6)\<close>.
\<close>

theorem solve_congruence_unsatisfiable:
  assumes "rm \<noteq> []" and "\<forall>(a, m) \<in> set rm. m \<noteq> 0"
  shows "solve_congruence check rm \<noteq> Inl e
         \<and> ((\<forall>x. \<not> satisfies x rm) \<longrightarrow> solve_congruence check rm = Inr None)
         \<and> (solve_congruence check rm = Inr None \<longrightarrow> (\<forall>x. \<not> satisfies x rm))"
proof -
  from solve_locals_cases [OF assms, of check]
  consider "solve_locals check rm = Inr None" "\<forall>x. \<not> satisfies x rm"
    | n M where "solve_locals check rm = Inr (Some (n, M))" "satisfies n rm"
    by blast
  then show ?thesis
  proof cases
    case 1
    then show ?thesis by (simp add: solve_congruence_def)
  next
    case 2
    then have "solve_congruence check rm = Inr (Some n)"
      by (simp add: solve_congruence_def)
    with 2(2) show ?thesis by auto
  qed
qed

theorem solve_congruence_unsatisfiable_witness:
  "(\<forall>x. \<not> satisfies x [(2, 3), (4, 6)])
   \<and> solve_congruence True [(2, 3), (4, 6)] = Inr None
   \<and> solve_congruence True [(2, 3), (4, 6)] \<noteq> Inl ZeroDivisionError
   \<and> solve_congruence True [(2, 3), (4, 6)] \<noteq> Inl NameError"
proof -
  have unsat: "\<forall>x. \<not> satisfies x [(2, 3), (4, 6)]"
    unfolding satisfies_def by simp presburger
  have ne: "[(2, 3), (4, 6)] \<noteq> ([] :: (int \<times> int) list)" by simp
  have nz: "\<forall>(a, m) \<in> set [(2, 3), (4, 6 :: int)]. m \<noteq> 0" by simp
  from solve_congruence_unsatisfiable [OF ne nz, of True ZeroDivisionError]
    solve_congruence_unsatisfiable [OF ne nz, of True NameError] unsat
  show ?thesis by blast
qed

text \<open>
  The claim as first stated, for every sequence with nonzero moduli, fails on the empty
  sequence, where the function raises.
\<close>

theorem solve_congruence_empty_raises_counterexample:
  "solve_congruence True [] = Inl NameError \<and> solve_congruence True [] \<noteq> Inr None"
  by (simp add: solve_congruence_def solve_locals_def dedup_def)

text \<open>
  C8, as the code has it. The solver does not normalise negative moduli. For every
  non-empty system with nonzero moduli, replacing moduli \<open>m\<close> by \<open>-m\<close> leaves unchanged
  whether the result is \<^verbatim>\<open>None\<close>, the magnitude of the combined modulus \<open>M\<close>, and the
  value modulo that magnitude; the value \<open>n\<close> is reduced with Python's \<^verbatim>\<open>%\<close>, so
  \<open>0 \<le> n < M\<close> when \<open>M\<close> is positive, which it is when every input modulus is positive,
  and \<open>M < n \<le> 0\<close> when \<open>M\<close> is negative.
\<close>

theorem solve_congruence_modulus_sign:
  assumes "rm \<noteq> []" and "\<forall>(a, m) \<in> set rm. m \<noteq> 0"
    and "map (\<lambda>(a, m). (a, \<bar>m\<bar>)) rm' = map (\<lambda>(a, m). (a, \<bar>m\<bar>)) rm"
  shows "(solve_congruence check rm = Inr None \<and> solve_congruence check rm' = Inr None)
       \<or> (\<exists>n M n' M'.
             solve_locals check rm = Inr (Some (n, M)) \<and> solve_congruence check rm = Inr (Some n)
           \<and> solve_locals check rm' = Inr (Some (n', M')) \<and> solve_congruence check rm' = Inr (Some n')
           \<and> \<bar>M'\<bar> = \<bar>M\<bar> \<and> n' mod \<bar>M\<bar> = n mod \<bar>M\<bar>
           \<and> (if 0 < M then 0 \<le> n \<and> n < M else M < n \<and> n \<le> 0)
           \<and> ((\<forall>(a, m) \<in> set rm. 0 < m) \<longrightarrow> 0 < M))"
proof -
  have same: "satisfies x rm' \<longleftrightarrow> satisfies x rm" for x
    by (rule satisfies_sign [OF assms(3)])
  have "length (map (\<lambda>(a, m). (a, \<bar>m\<bar>)) rm') = length (map (\<lambda>(a, m). (a, \<bar>m\<bar>)) rm)"
    by (simp only: assms(3))
  with assms(1) have ne': "rm' \<noteq> []" by auto
  have nz': "\<forall>(a, m) \<in> set rm'. m \<noteq> 0"
  proof (intro ballI, clarify)
    fix a assume "(a, 0) \<in> set rm'"
    then have "(a, 0) \<in> set (map (\<lambda>(a, m). (a, \<bar>m\<bar>)) rm')" by force
    then have "(a, 0) \<in> set (map (\<lambda>(a, m). (a, \<bar>m\<bar>)) rm)" by (simp only: assms(3))
    with assms(2) show False by auto
  qed
  from solve_locals_cases [OF assms(1,2), of check]
  consider (none) "solve_locals check rm = Inr None" "\<forall>x. \<not> satisfies x rm"
    | (some) n M where "solve_locals check rm = Inr (Some (n, M))" "satisfies n rm"
    by blast
  then show ?thesis
  proof cases
    case none
    with solve_locals_cases [OF ne' nz', of check] same
    have "solve_locals check rm' = Inr None" by auto
    with none(1) show ?thesis by (simp add: solve_congruence_def)
  next
    case some
    with solve_locals_cases [OF ne' nz', of check] same
    obtain n' M' where run': "solve_locals check rm' = Inr (Some (n', M'))"
      by auto
    note res = solve_locals_result [OF assms(1,2) some(1)]
    note res' = solve_locals_result [OF ne' nz' run']
    have eq: "M dvd x - n \<longleftrightarrow> M' dvd x - n'" for x
      using res(3) res'(3) same by simp
    have "M' dvd M"
    proof -
      have "M dvd (n + M) - n" by simp
      then have "M' dvd (n + M) - n'" by (simp only: eq)
      moreover have "M dvd n - n" by simp
      then have "M' dvd n - n'" by (simp only: eq)
      ultimately have "M' dvd ((n + M) - n') - (n - n')" by (rule dvd_diff)
      then show ?thesis by simp
    qed
    moreover have "M dvd M'"
    proof -
      have "M' dvd (n' + M') - n'" by simp
      then have "M dvd (n' + M') - n" by (simp only: eq)
      moreover have "M' dvd n' - n'" by simp
      then have "M dvd n' - n" by (simp only: eq)
      ultimately have "M dvd ((n' + M') - n) - (n' - n)" by (rule dvd_diff)
      then show ?thesis by simp
    qed
    ultimately have abs: "\<bar>M'\<bar> = \<bar>M\<bar>" by (rule zdvd_antisym_abs)
    have "M' dvd n' - n'" by simp
    then have "M dvd n' - n" by (simp only: eq)
    then have "\<bar>M\<bar> dvd n' - n" by simp
    then have cong: "n' mod \<bar>M\<bar> = n mod \<bar>M\<bar>" by (simp add: mod_eq_dvd_iff)
    have range: "if 0 < M then 0 \<le> n \<and> n < M else M < n \<and> n \<le> 0"
    proof (cases "0 < M")
      case True
      then have "0 \<le> n mod M \<and> n mod M < M" by simp
      with True show ?thesis unfolding res(2) by simp
    next
      case False
      with res(1) have "M < 0" by simp
      then have "M < n mod M \<and> n mod M \<le> 0" by simp
      with False show ?thesis unfolding res(2) by simp
    qed
    have "solve_congruence check rm = Inr (Some n)" "solve_congruence check rm' = Inr (Some n')"
      using some(1) run' by (simp_all add: solve_congruence_def)
    with some(1) run' abs cong range res(4) show ?thesis by blast
  qed
qed

theorem solve_congruence_modulus_sign_witness:
  "solve_locals True [(2, 3), (3, 5)] = Inr (Some (8, 15))
   \<and> solve_congruence True [(2, 3), (3, 5)] = Inr (Some 8)
   \<and> solve_locals True [(2, 3), (3, - 5)] = Inr (Some (- 7, - 15))
   \<and> solve_congruence True [(2, 3), (3, - 5)] = Inr (Some (- 7))
   \<and> \<bar>- 15 :: int\<bar> = \<bar>15\<bar> \<and> (- 7 :: int) mod \<bar>15\<bar> = 8 mod \<bar>15\<bar>
   \<and> (0::int) \<le> 8 \<and> (8::int) < 15"
proof -
  have run: "solve_locals True [(2, 3), (3, 5)] = Inr (Some (8, 15))"
    by code_simp
  have run': "solve_locals True [(2, 3), (3, - 5)] = Inr (Some (- 7, - 15))"
    by code_simp
  have ret: "solve_congruence True [(2, 3), (3, 5)] = Inr (Some 8)"
    using run by (simp add: solve_congruence_def)
  have ret': "solve_congruence True [(2, 3), (3, - 5)] = Inr (Some (- 7))"
    using run' by (simp add: solve_congruence_def)
  from solve_congruence_modulus_sign [of "[(2, 3), (3, 5)]" "[(2, 3), (3, - 5)]" True]
    run run' ret ret'
  show ?thesis by simp
qed

text \<open>
  The claim as first stated fails on \<open>(2, 3)\<close> against \<open>(2, -3)\<close>: the results differ,
  and the second is negative with a negative combined modulus. \<^verbatim>\<open>_crt\<close> does the same.
\<close>

theorem solve_congruence_sign_flip_counterexample:
  "solve_congruence True [(2, 3)] = Inr (Some 2)
   \<and> solve_congruence True [(2, - 3)] = Inr (Some (- 1))
   \<and> solve_locals True [(2, - 3)] = Inr (Some (- 1, - 3))
   \<and> underscore_crt [2] [3] = Inr 2
   \<and> underscore_crt [2] [- 3] = Inr (- 1)"
  by code_simp

section \<open>The empty system\<close>

text \<open>
  C10. \<^verbatim>\<open>solve_congruence\<close> called with no pair, with either value of \<^verbatim>\<open>check\<close>, reaches
  \<^verbatim>\<open>return n\<close> with \<^verbatim>\<open>n\<close> never assigned and raises \<^verbatim>\<open>NameError\<close>: it returns neither
  the identity constraint nor \<^verbatim>\<open>None\<close>.
\<close>

theorem solve_congruence_empty:
  "solve_congruence check [] = Inl NameError"
  by (simp add: solve_congruence_def solve_locals_def dedup_def)

end
